theory Spec2Isabelle
  imports Main "HOL-Library.Word" "HOL-Library.AList"
begin

section \<open>Strings of the host language\<close>

text \<open>
  The program is TypeScript: a string is a sequence of 16-bit code units, and the regular
  expressions of the source (none carries the \<open>u\<close> flag) work on code units.
  \<open>js\<close> turns a literal of the theory into such a string.
\<close>

type_synonym jschar = "16 word"
type_synonym jsstring = "jschar list"

definition js :: "string \<Rightarrow> jsstring" where
  "js s = map (\<lambda>c. of_nat (of_char c)) s"

definition nl :: jschar where
  "nl = 0x0A"

definition hash :: jschar where
  "hash = 0x23"

definition bar :: jschar where
  "bar = 0x7C"

definition sp :: jschar where
  "sp = 0x20"

text \<open>\<open>\s\<close>: the white space and line terminator code units of ECMAScript.\<close>

definition is_space :: "jschar \<Rightarrow> bool" where
  "is_space c \<longleftrightarrow>
     c = 0x09 \<or> c = 0x0A \<or> c = 0x0B \<or> c = 0x0C \<or> c = 0x0D \<or> c = 0x20 \<or> c = 0xA0 \<or>
     c = 0x1680 \<or> (0x2000 \<le> c \<and> c \<le> 0x200A) \<or> c = 0x2028 \<or> c = 0x2029 \<or>
     c = 0x202F \<or> c = 0x205F \<or> c = 0x3000 \<or> c = 0xFEFF"

text \<open>\<open>.\<close> (no \<open>s\<close> flag): any code unit but a line terminator.\<close>

definition is_dot :: "jschar \<Rightarrow> bool" where
  "is_dot c \<longleftrightarrow> c \<noteq> 0x0A \<and> c \<noteq> 0x0D \<and> c \<noteq> 0x2028 \<and> c \<noteq> 0x2029"

text \<open>\<open>\d\<close>: the ASCII digits.\<close>

definition is_digit :: "jschar \<Rightarrow> bool" where
  "is_digit c \<longleftrightarrow> 0x30 \<le> c \<and> c \<le> 0x39"

definition is_hash :: "jschar \<Rightarrow> bool" where
  "is_hash c \<longleftrightarrow> c = hash"

text \<open>\<open>String.prototype.trim\<close> removes the code units of \<open>\s\<close> at both ends.\<close>

definition trim :: "jsstring \<Rightarrow> jsstring" where
  "trim s = rev (dropWhile is_space (rev (dropWhile is_space s)))"

text \<open>\<open>s.split('\n')\<close>: never empty, the empty string gives one empty line.\<close>

fun split_nl :: "jsstring \<Rightarrow> jsstring list" where
  "split_nl [] = [[]]"
| "split_nl (c # cs) =
     (if c = nl then [] # split_nl cs
      else (case split_nl cs of l # ls \<Rightarrow> (c # l) # ls | [] \<Rightarrow> [[c]]))"

text \<open>\<open>xs.join('\n')\<close>.\<close>

fun join_nl :: "jsstring list \<Rightarrow> jsstring" where
  "join_nl [] = []"
| "join_nl [l] = l"
| "join_nl (l # ls) = l @ nl # join_nl ls"

text \<open>The decimal numeral of a number, as a template literal prints it.\<close>

definition digit :: "nat \<Rightarrow> jschar" where
  "digit d = 0x30 + of_nat d"

function dec :: "nat \<Rightarrow> jsstring" where
  "dec n = (if n < 10 then [digit n] else dec (n div 10) @ [digit (n mod 10)])"
  by pat_completeness auto
termination
  by (relation "measure (\<lambda>n. n)") auto

declare dec.simps [simp del]

section \<open>Regular expressions, by backtracking\<close>

text \<open>
  \<open>rep p lo hi acc k s\<close> is the greedy quantifier \<open>x{lo,hi}\<close> (\<open>hi = None\<close>: no upper
  bound) for a one-character class \<open>p\<close>: it first tries to take one more character, and
  only when the rest of the pattern (the continuation \<open>k\<close>, given what the quantifier has
  taken and what is left) fails there does it stop, provided \<open>lo\<close> is reached.
\<close>

fun rep :: "(jschar \<Rightarrow> bool) \<Rightarrow> nat \<Rightarrow> nat option \<Rightarrow> jsstring \<Rightarrow>
    (jsstring \<Rightarrow> jsstring \<Rightarrow> 'a option) \<Rightarrow> jsstring \<Rightarrow> 'a option" where
  "rep p lo hi acc k [] = (if lo = 0 then k acc [] else None)"
| "rep p lo hi acc k (c # cs) =
     (case (if p c \<and> hi \<noteq> Some 0
            then rep p (lo - 1) (map_option (\<lambda>h. h - 1) hi) (acc @ [c]) k cs
            else None) of
        Some r \<Rightarrow> Some r
      | None \<Rightarrow> (if lo = 0 then k acc (c # cs) else None))"

text \<open>A literal string at the start of the input.\<close>

fun lit :: "jsstring \<Rightarrow> (jsstring \<Rightarrow> 'a option) \<Rightarrow> jsstring \<Rightarrow> 'a option" where
  "lit [] k s = k s"
| "lit (x # xs) k [] = None"
| "lit (x # xs) k (c # cs) = (if c = x then lit xs k cs else None)"

text \<open>\<open>$\<close> (no \<open>m\<close> flag): the end of the input.\<close>

definition eos :: "'a \<Rightarrow> jsstring \<Rightarrow> 'a option" where
  "eos r s = (if s = [] then Some r else None)"

section \<open>The outline extractor\<close>

record heading =
  h_level :: nat
  h_text :: jsstring
  h_line :: nat
  h_originalLine :: jsstring
  h_id :: jsstring

text \<open>\<open>/^(#{1,6})\s+(.+)$/\<close>: the two groups of a match.\<close>

definition heading_re :: "jsstring \<Rightarrow> (jsstring \<times> jsstring) option" where
  "heading_re s =
     rep is_hash 1 (Some 6) []
       (\<lambda>m1. rep is_space 1 None []
          (\<lambda>_. rep is_dot 1 None [] (\<lambda>m2. eos (m1, m2)))) s"

text \<open>
  The \<open>forEach\<close> of \<open>parseHeadings\<close>: \<open>index\<close> is the position of the line,
  \<open>headingCounter\<close> the number of headings pushed so far.
\<close>

fun parseLoop :: "jsstring list \<Rightarrow> nat \<Rightarrow> nat \<Rightarrow> heading list" where
  "parseLoop [] index headingCounter = []"
| "parseLoop (l # ls) index headingCounter =
     (case heading_re l of
        Some (m1, m2) \<Rightarrow>
          \<lparr>h_level = length m1, h_text = m2, h_line = index, h_originalLine = l,
           h_id = js ''H'' @ dec (Suc headingCounter)\<rparr>
          # parseLoop ls (Suc index) (Suc headingCounter)
      | None \<Rightarrow> parseLoop ls (Suc index) headingCounter)"

definition parseHeadings :: "jsstring \<Rightarrow> heading list" where
  "parseHeadings content = parseLoop (split_nl content) 0 0"

section \<open>The external rewrite adapter\<close>

text \<open>\<open>/^H\d+\|(.+)$/\<close>: the group of a match.\<close>

definition strip_re :: "jsstring \<Rightarrow> jsstring option" where
  "strip_re s =
     lit (js ''H'') (rep is_digit 1 None []
       (\<lambda>_. lit [bar] (rep is_dot 1 None [] (\<lambda>m1. eos m1)))) s"

text \<open>The outline sent to the service (\<open>currentOutline\<close> in \<open>enhanceWithAI\<close>).\<close>

definition stripLine :: "jsstring \<Rightarrow> jsstring" where
  "stripLine line = (case strip_re line of Some m1 \<Rightarrow> m1 | None \<Rightarrow> line)"

definition currentOutline :: "jsstring \<Rightarrow> jsstring" where
  "currentOutline textAreaValue = join_nl (map stripLine (split_nl textAreaValue))"

text \<open>\<open>/^(H\d+)\|/\<close>, not anchored at the end: the group of a match.\<close>

definition id_re :: "jsstring \<Rightarrow> jsstring option" where
  "id_re s =
     lit (js ''H'') (rep is_digit 1 None []
       (\<lambda>ds. lit [bar] (\<lambda>_. Some (js ''H'' @ ds)))) s"

text \<open>
  The loop of \<open>matchHeadingsWithIds\<close>: \<open>originalIndex\<close> moves on only in the branch
  that found an identifier.
\<close>

fun matchLoop :: "jsstring list \<Rightarrow> jsstring list \<Rightarrow> nat \<Rightarrow> jsstring list" where
  "matchLoop originalLines [] originalIndex = []"
| "matchLoop originalLines (enhancedLine # rest) originalIndex =
     (if originalIndex < length originalLines then
        (case id_re (originalLines ! originalIndex) of
           Some idMatch \<Rightarrow>
             (idMatch @ bar # enhancedLine) # matchLoop originalLines rest (Suc originalIndex)
         | None \<Rightarrow> enhancedLine # matchLoop originalLines rest originalIndex)
      else (js ''NEW|'' @ enhancedLine) # matchLoop originalLines rest originalIndex)"

definition matchHeadingsWithIds :: "jsstring list \<Rightarrow> jsstring list \<Rightarrow> jsstring list" where
  "matchHeadingsWithIds originalLines enhancedLines = matchLoop originalLines enhancedLines 0"

section \<open>The outline shown to the user\<close>

text \<open>\<open>'#'.repeat(level) + ' ' + text\<close>.\<close>

definition rebuild :: "nat \<Rightarrow> jsstring \<Rightarrow> jsstring" where
  "rebuild lv tx = replicate lv hash @ sp # tx"

definition outlineLine :: "heading \<Rightarrow> jsstring" where
  "outlineLine h = h_id h @ bar # rebuild (h_level h) (h_text h)"

definition outlineText :: "heading list \<Rightarrow> jsstring" where
  "outlineText headings = join_nl (map outlineLine headings)"

section \<open>The outline reconciler\<close>

record edited =
  e_id :: jsstring
  e_level :: nat
  e_text :: jsstring

text \<open>\<open>/^(H\d+|NEW)\|\s*(#{1,6})\s+(.+)$/\<close>: the three groups of a match.\<close>

definition edited_tail :: "jsstring \<Rightarrow> jsstring \<Rightarrow> (jsstring \<times> jsstring \<times> jsstring) option" where
  "edited_tail m1 =
     lit [bar] (rep is_space 0 None []
       (\<lambda>_. rep is_hash 1 (Some 6) []
          (\<lambda>m2. rep is_space 1 None []
             (\<lambda>_. rep is_dot 1 None [] (\<lambda>m3. eos (m1, m2, m3))))))"

definition edited_re :: "jsstring \<Rightarrow> (jsstring \<times> jsstring \<times> jsstring) option" where
  "edited_re s =
     (case lit (js ''H'') (rep is_digit 1 None [] (\<lambda>ds. edited_tail (js ''H'' @ ds))) s of
        Some r \<Rightarrow> Some r
      | None \<Rightarrow> lit (js ''NEW'') (edited_tail (js ''NEW'')) s)"

text \<open>\<open>value.split('\n').filter(line => line.trim())\<close>.\<close>

definition nonblank_lines :: "jsstring \<Rightarrow> jsstring list" where
  "nonblank_lines v = filter (\<lambda>line. trim line \<noteq> []) (split_nl v)"

definition parseEdited :: "jsstring \<Rightarrow> edited option" where
  "parseEdited line =
     (case edited_re line of
        Some (m1, m2, m3) \<Rightarrow> Some \<lparr>e_id = m1, e_level = length m2, e_text = trim m3\<rparr>
      | None \<Rightarrow> None)"

definition editedHeadings :: "jsstring list \<Rightarrow> edited list" where
  "editedHeadings editedLines = List.map_filter parseEdited editedLines"

text \<open>
  A \<open>Set\<close> of strings, in insertion order; a \<open>Map\<close> is an association list under
  \<open>AList.update\<close>, which keeps the place of a key that is set again, as \<open>Map.set\<close> does.
\<close>

definition set_add :: "jsstring \<Rightarrow> jsstring list \<Rightarrow> jsstring list" where
  "set_add x s = (if x \<in> set s then s else s @ [x])"

definition new_Set :: "jsstring list \<Rightarrow> jsstring list" where
  "new_Set xs = foldl (\<lambda>s x. set_add x s) [] xs"

text \<open>The loop that fills \<open>newHeadings\<close> and \<open>editMap\<close>.\<close>

fun collect :: "edited list \<Rightarrow> (nat \<times> jsstring) list \<Rightarrow> (jsstring \<times> nat \<times> jsstring) list \<Rightarrow>
    (nat \<times> jsstring) list \<times> (jsstring \<times> nat \<times> jsstring) list" where
  "collect [] newHeadings editMap = (newHeadings, editMap)"
| "collect (e # es) newHeadings editMap =
     (if e_id e = js ''NEW''
      then collect es (newHeadings @ [(e_level e, e_text e)]) editMap
      else collect es newHeadings (AList.update (e_id e) (e_level e, e_text e) editMap))"

text \<open>The loop that fills \<open>deletedIds\<close>.\<close>

definition findDeleted :: "jsstring list \<Rightarrow> jsstring list \<Rightarrow> jsstring list" where
  "findDeleted originalIds editedIds =
     foldl (\<lambda>s i. if i \<notin> set editedIds then set_add i s else s) [] originalIds"

text \<open>
  Reading and writing \<open>lines[i]\<close>. A read past the end gives \<open>undefined\<close>
  (\<open>None\<close>); a write past the end extends the array, and the holes it leaves are printed
  by \<open>join\<close> as empty strings, which is how they are kept here.
\<close>

definition js_get :: "jsstring list \<Rightarrow> nat \<Rightarrow> jsstring option" where
  "js_get xs i = (if i < length xs then Some (xs ! i) else None)"

definition js_set :: "jsstring list \<Rightarrow> nat \<Rightarrow> jsstring \<Rightarrow> jsstring list" where
  "js_set xs i v =
     (if i < length xs then xs[i := v] else xs @ replicate (i - length xs) [] @ [v])"

text \<open>The loop over \<open>this.headings\<close>: the state is \<open>(lines, linesToRemove, changesMade)\<close>.\<close>

fun updateLoop :: "heading list \<Rightarrow> jsstring list \<Rightarrow> (jsstring \<times> nat \<times> jsstring) list \<Rightarrow>
    jsstring list \<times> nat list \<times> bool \<Rightarrow> jsstring list \<times> nat list \<times> bool" where
  "updateLoop [] deletedIds editMap st = st"
| "updateLoop (h # hs) deletedIds editMap (lines, linesToRemove, changesMade) =
     (if h_id h \<in> set deletedIds
      then updateLoop hs deletedIds editMap (lines, linesToRemove @ [h_line h], True)
      else (case map_of editMap (h_id h) of
              Some (lv, tx) \<Rightarrow>
                (if js_get lines (h_line h) \<noteq> Some (rebuild lv tx)
                 then updateLoop hs deletedIds editMap
                        (js_set lines (h_line h) (rebuild lv tx), linesToRemove, True)
                 else updateLoop hs deletedIds editMap (lines, linesToRemove, changesMade))
            | None \<Rightarrow> updateLoop hs deletedIds editMap (lines, linesToRemove, changesMade)))"

text \<open>\<open>linesToRemove.sort((a, b) => b - a)\<close>.\<close>

definition sort_desc :: "nat list \<Rightarrow> nat list" where
  "sort_desc xs = rev (sort xs)"

text \<open>\<open>lines.splice(lineIndex, 1)\<close>, for each index in turn.\<close>

fun spliceLoop :: "jsstring list \<Rightarrow> nat list \<Rightarrow> jsstring list" where
  "spliceLoop lines [] = lines"
| "spliceLoop lines (lineIndex # rest) =
     spliceLoop (take lineIndex lines @ drop (Suc lineIndex) lines) rest"

text \<open>
  What \<open>applyChanges\<close> does to the editor: \<open>Updated t m d a\<close> is \<open>setValue(t)\<close> with
  the notice of \<open>m\<close> modified, \<open>d\<close> removed and \<open>a\<close> added; \<open>NoChanges\<close> is the
  notice alone, the document left as it is.
\<close>

datatype outcome = Updated jsstring nat nat nat | NoChanges

fun notice :: "outcome \<Rightarrow> jsstring" where
  "notice (Updated t m d a) =
     js ''Outline updated: '' @ dec m @ js '' modified, '' @ dec d @ js '' removed, ''
       @ dec a @ js '' added''"
| "notice NoChanges = js ''No changes detected''"

text \<open>
  \<open>applyChanges\<close>, stage by stage. \<open>headings\<close> is \<open>this.headings\<close> (filled when the
  editor was opened), \<open>textAreaValue\<close> the edited outline, \<open>content\<close> the text of the
  document when the user presses Done.
\<close>

definition editedOf :: "jsstring \<Rightarrow> edited list" where
  "editedOf textAreaValue = editedHeadings (nonblank_lines textAreaValue)"

definition newHeadingsOf :: "jsstring \<Rightarrow> (nat \<times> jsstring) list" where
  "newHeadingsOf textAreaValue = fst (collect (editedOf textAreaValue) [] [])"

definition editMapOf :: "jsstring \<Rightarrow> (jsstring \<times> nat \<times> jsstring) list" where
  "editMapOf textAreaValue = snd (collect (editedOf textAreaValue) [] [])"

definition deletedIdsOf :: "heading list \<Rightarrow> jsstring \<Rightarrow> jsstring list" where
  "deletedIdsOf headings textAreaValue =
     findDeleted (new_Set (map h_id headings)) (new_Set (map e_id (editedOf textAreaValue)))"

text \<open>After the loop over the headings: \<open>(lines, linesToRemove, changesMade)\<close>.\<close>

definition updated :: "heading list \<Rightarrow> jsstring \<Rightarrow> jsstring \<Rightarrow> jsstring list \<times> nat list \<times> bool" where
  "updated headings textAreaValue content =
     updateLoop headings (deletedIdsOf headings textAreaValue) (editMapOf textAreaValue)
       (split_nl content, [], False)"

text \<open>After the removals: \<open>(lines, changesMade)\<close>.\<close>

definition patchedLines :: "heading list \<Rightarrow> jsstring \<Rightarrow> jsstring \<Rightarrow> jsstring list \<times> bool" where
  "patchedLines headings textAreaValue content =
     (case updated headings textAreaValue content of
        (lines, linesToRemove, changesMade) \<Rightarrow>
          (spliceLoop lines (sort_desc linesToRemove), changesMade))"

text \<open>After the new headings are pushed: the lines handed to \<open>join\<close>, and \<open>changesMade\<close>.\<close>

definition finalLines :: "heading list \<Rightarrow> jsstring \<Rightarrow> jsstring \<Rightarrow> jsstring list \<times> bool" where
  "finalLines headings textAreaValue content =
     (case patchedLines headings textAreaValue content of
        (lines, changesMade) \<Rightarrow>
          (if newHeadingsOf textAreaValue \<noteq> []
           then (lines @ map (\<lambda>(lv, tx). rebuild lv tx) (newHeadingsOf textAreaValue), True)
           else (lines, changesMade)))"

definition applyChanges :: "heading list \<Rightarrow> jsstring \<Rightarrow> jsstring \<Rightarrow> outcome" where
  "applyChanges headings textAreaValue content =
     (case finalLines headings textAreaValue content of
        (lines, changesMade) \<Rightarrow>
          (if changesMade
           then Updated (join_nl lines) (length (editMapOf textAreaValue))
                  (length (deletedIdsOf headings textAreaValue))
                  (length (newHeadingsOf textAreaValue))
           else NoChanges))"

text \<open>The document after \<open>applyChanges\<close>.\<close>

definition document_after :: "jsstring \<Rightarrow> outcome \<Rightarrow> jsstring" where
  "document_after content r = (case r of Updated t m d a \<Rightarrow> t | NoChanges \<Rightarrow> content)"

text \<open>The entry that the outline line of a heading stands for, when its text needs no trimming.\<close>

definition asEdited :: "heading \<Rightarrow> edited" where
  "asEdited h = \<lparr>e_id = h_id h, e_level = h_level h, e_text = h_text h\<rparr>"

section \<open>The quantifier takes the longest run that lets the rest match\<close>

lemma rep_max:
  "\<forall>x\<in>set xs. p x \<Longrightarrow> ys = [] \<or> \<not> p (hd ys) \<Longrightarrow> lo \<le> length xs \<Longrightarrow>
   (case hi of None \<Rightarrow> True | Some h \<Rightarrow> length xs \<le> h) \<Longrightarrow> k (acc @ xs) ys = Some r \<Longrightarrow>
   rep p lo hi acc k (xs @ ys) = Some r"
proof (induction xs arbitrary: lo hi acc)
  case Nil
  then show ?case by (cases ys) auto
next
  case (Cons x xs)
  have "rep p (lo - 1) (map_option (\<lambda>h. h - 1) hi) (acc @ [x]) k (xs @ ys) = Some r"
    using Cons.prems by (intro Cons.IH) (auto split: option.splits)
  moreover have "p x" "hi \<noteq> Some 0"
    using Cons.prems by auto
  ultimately show ?case by simp
qed

lemma rep_sound:
  "rep p lo hi acc k s = Some r \<Longrightarrow>
   \<exists>xs ys. s = xs @ ys \<and> (\<forall>x\<in>set xs. p x) \<and> lo \<le> length xs \<and>
     (case hi of None \<Rightarrow> True | Some h \<Rightarrow> length xs \<le> h) \<and> k (acc @ xs) ys = Some r"
proof (induction s arbitrary: lo hi acc)
  case Nil
  then show ?case by (auto split: if_splits option.splits)
next
  case (Cons c cs)
  show ?case
  proof (cases "p c \<and> hi \<noteq> Some 0 \<and>
      rep p (lo - 1) (map_option (\<lambda>h. h - 1) hi) (acc @ [c]) k cs = Some r")
    case True
    then obtain xs ys where *: "cs = xs @ ys" "\<forall>x\<in>set xs. p x" "lo - 1 \<le> length xs"
      "case map_option (\<lambda>h. h - 1) hi of None \<Rightarrow> True | Some h \<Rightarrow> length xs \<le> h"
      "k ((acc @ [c]) @ xs) ys = Some r"
      using Cons.IH by blast
    have "c # cs = (c # xs) @ ys \<and> (\<forall>x\<in>set (c # xs). p x) \<and> lo \<le> length (c # xs) \<and>
      (case hi of None \<Rightarrow> True | Some h \<Rightarrow> length (c # xs) \<le> h) \<and> k (acc @ c # xs) ys = Some r"
      using * True by (auto split: option.splits)
    then show ?thesis by blast
  next
    case False
    then have "lo = 0 \<and> k acc (c # cs) = Some r"
      using Cons.prems by (auto split: if_splits option.splits)
    then have "c # cs = [] @ (c # cs) \<and> (\<forall>x\<in>set []. p x) \<and> lo \<le> length ([]::jsstring) \<and>
      (case hi of None \<Rightarrow> True | Some h \<Rightarrow> length ([]::jsstring) \<le> h) \<and> k (acc @ []) (c # cs) = Some r"
      by (auto split: option.splits)
    then show ?thesis by blast
  qed
qed

lemma lit_append: "lit xs k (xs @ s) = k s"
  by (induction xs) auto

section \<open>The pattern of an edited line\<close>

lemma hash_not_space: "\<not> is_space hash"
  by (simp add: is_space_def hash_def)

lemma bar_not_digit: "\<not> is_digit bar"
  by (simp add: is_digit_def bar_def)

lemma edited_tail_max:
  assumes "\<forall>c\<in>set ws1. is_space c" "1 \<le> n" "n \<le> 6" "ws2 \<noteq> []" "\<forall>c\<in>set ws2. is_space c"
    "t \<noteq> []" "\<forall>c\<in>set t. is_dot c" "\<not> is_space (hd t)"
  shows "edited_tail m1 (bar # ws1 @ replicate n hash @ ws2 @ t) = Some (m1, replicate n hash, t)"
proof -
  have d: "rep is_dot 1 None [] (\<lambda>m3. eos (m1, replicate n hash, m3)) (t @ [])
      = Some (m1, replicate n hash, t)"
    using assms by (intro rep_max [where xs = t and ys = "[]"]) (auto simp: eos_def Suc_le_eq)
  have s2: "rep is_space 1 None []
      (\<lambda>_. rep is_dot 1 None [] (\<lambda>m3. eos (m1, replicate n hash, m3))) (ws2 @ t)
      = Some (m1, replicate n hash, t)"
    using assms d by (intro rep_max [where xs = ws2 and ys = t]) (auto simp: Suc_le_eq)
  have h: "rep is_hash 1 (Some 6) []
      (\<lambda>m2. rep is_space 1 None [] (\<lambda>_. rep is_dot 1 None [] (\<lambda>m3. eos (m1, m2, m3))))
      (replicate n hash @ (ws2 @ t)) = Some (m1, replicate n hash, t)"
  proof -
    have "is_space (hd ws2)" using assms by simp
    then have "hd ws2 \<noteq> hash" using hash_not_space by auto
    then show ?thesis
    using assms s2
    by (intro rep_max [where xs = "replicate n hash" and ys = "ws2 @ t"])
       (auto simp: is_hash_def hash_not_space hd_append)
  qed
  have s1: "rep is_space 0 None []
      (\<lambda>_. rep is_hash 1 (Some 6) []
        (\<lambda>m2. rep is_space 1 None [] (\<lambda>_. rep is_dot 1 None [] (\<lambda>m3. eos (m1, m2, m3)))))
      (ws1 @ (replicate n hash @ ws2 @ t)) = Some (m1, replicate n hash, t)"
    using assms h
    by (intro rep_max [where xs = ws1 and ys = "replicate n hash @ ws2 @ t"])
       (auto simp: hash_not_space hd_append)
  show ?thesis
    using s1 lit_append [of "[bar]"] by (simp add: edited_tail_def)
qed

lemma edited_re_H:
  assumes "ds \<noteq> []" "\<forall>d\<in>set ds. is_digit d" "edited_tail (js ''H'' @ ds) (bar # s) = Some r"
  shows "edited_re (js ''H'' @ ds @ bar # s) = Some r"
proof -
  have "rep is_digit 1 None [] (\<lambda>ds. edited_tail (js ''H'' @ ds)) (ds @ (bar # s)) = Some r"
    using assms by (intro rep_max [where xs = ds and ys = "bar # s"]) (auto simp: bar_not_digit Suc_le_eq)
  then show ?thesis
    by (simp add: edited_re_def lit_append)
qed

lemma edited_re_NEW: "edited_re (js ''NEW'' @ s) = edited_tail (js ''NEW'') s"
proof -
  have "lit (js ''H'') k (js ''NEW'' @ s) = None" for k :: "jsstring \<Rightarrow> (jsstring \<times> jsstring \<times> jsstring) option"
    by (simp add: js_def)
  then show ?thesis
    by (simp add: edited_re_def lit_append)
qed

section \<open>Lines, trimming and decimal numerals\<close>

lemma split_nl_nonempty: "split_nl s \<noteq> []"
  by (induction s) (auto split: list.splits)

lemma split_nl_line: "nl \<notin> set l \<Longrightarrow> split_nl l = [l]"
  by (induction l) auto

lemma split_nl_append: "nl \<notin> set l \<Longrightarrow> split_nl (l @ nl # s) = l # split_nl s"
  by (induction l) auto

lemma split_join: "ls \<noteq> [] \<Longrightarrow> \<forall>l\<in>set ls. nl \<notin> set l \<Longrightarrow> split_nl (join_nl ls) = ls"
  by (induction ls rule: join_nl.induct) (auto simp: split_nl_line split_nl_append)

lemma join_split: "join_nl (split_nl s) = s"
proof (induction s)
  case Nil
  then show ?case by simp
next
  case (Cons c cs)
  obtain x xs where x: "split_nl cs = x # xs"
    using split_nl_nonempty by (cases "split_nl cs") auto
  show ?case
    using Cons.IH x by (cases xs) auto
qed

lemma trim_Nil: "trim [] = []"
  by (simp add: trim_def)

lemma trim_id: "t \<noteq> [] \<Longrightarrow> \<not> is_space (hd t) \<Longrightarrow> \<not> is_space (last t) \<Longrightarrow> trim t = t"
proof -
  assume a: "t \<noteq> []" "\<not> is_space (hd t)" "\<not> is_space (last t)"
  have "dropWhile is_space t = t"
    using a by (cases t) auto
  moreover have "dropWhile is_space (rev t) = rev t"
    using a by (cases "rev t") (auto simp: last_rev [symmetric] hd_rev)
  ultimately show ?thesis
    by (simp add: trim_def)
qed

lemma trim_hd: "t \<noteq> [] \<Longrightarrow> \<not> is_space (hd t) \<Longrightarrow> trim t \<noteq> []"
proof -
  assume a: "t \<noteq> []" "\<not> is_space (hd t)"
  have "dropWhile is_space t = t"
    using a by (cases t) auto
  moreover have "dropWhile is_space (rev t) \<noteq> []"
    using a by (auto simp: dropWhile_eq_Nil_conv hd_in_set)
  ultimately show ?thesis
    by (simp add: trim_def)
qed

lemma nonblank_lines_join:
  assumes "\<forall>l\<in>set ls. nl \<notin> set l"
  shows "nonblank_lines (join_nl ls) = filter (\<lambda>line. trim line \<noteq> []) ls"
proof (cases "ls = []")
  case True
  then show ?thesis by (simp add: nonblank_lines_def trim_Nil)
next
  case False
  then show ?thesis using assms by (simp add: nonblank_lines_def split_join)
qed

lemma digit_inj: "a < 10 \<Longrightarrow> b < 10 \<Longrightarrow> digit a = digit b \<Longrightarrow> a = b"
proof -
  assume a: "a < 10" "b < 10" "digit a = digit b"
  then have "(of_nat a :: jschar) = of_nat b"
    by (simp add: digit_def)
  then have "unat (of_nat a :: jschar) = unat (of_nat b :: jschar)"
    by simp
  then show ?thesis
    using a by (simp add: unat_of_nat)
qed

lemma dec_nonempty: "dec n \<noteq> []"
  by (subst dec.simps) simp

lemma is_digit_digit: "d < 10 \<Longrightarrow> is_digit (digit d)"
proof -
  assume "d < 10"
  then have "d \<in> {0,1,2,3,4,5,6,7,8,9}" by auto
  then show ?thesis
    by (auto simp: is_digit_def digit_def)
qed

lemma dec_digits: "\<forall>d\<in>set (dec n). is_digit d"
proof (induction n rule: dec.induct)
  case (1 n)
  show ?case
  proof (cases "n < 10")
    case True
    then show ?thesis by (subst dec.simps) (simp add: is_digit_digit)
  next
    case False
    then show ?thesis using 1 by (subst dec.simps) (simp add: is_digit_digit)
  qed
qed

lemma dec_inj: "dec n = dec m \<Longrightarrow> n = m"
proof (induction n arbitrary: m rule: dec.induct)
  case (1 n)
  show ?case
  proof (cases "n < 10")
    case n: True
    show ?thesis
    proof (cases "m < 10")
      case True
      then show ?thesis using n "1.prems" digit_inj by (simp add: dec.simps)
    next
      case False
      then show ?thesis using n "1.prems" dec_nonempty [of "m div 10"]
        by (simp add: dec.simps [of n] dec.simps [of m])
    qed
  next
    case n: False
    show ?thesis
    proof (cases "m < 10")
      case True
      then show ?thesis using n "1.prems" dec_nonempty [of "n div 10"]
        by (simp add: dec.simps [of n] dec.simps [of m])
    next
      case False
      then have "dec (n div 10) = dec (m div 10)" "digit (n mod 10) = digit (m mod 10)"
        using n "1.prems" by (simp_all add: dec.simps [of n] dec.simps [of m])
      then have "n div 10 = m div 10" "n mod 10 = m mod 10"
        using "1.IH" [OF n] digit_inj [of "n mod 10" "m mod 10"] by auto
      then show ?thesis
        by (metis div_mult_mod_eq)
    qed
  qed
qed

section \<open>The heading pattern and the headings of a document\<close>

lemma heading_re_sound:
  assumes "heading_re l = Some (m1, m2)"
  shows "\<exists>ws. l = m1 @ ws @ m2 \<and> m1 = replicate (length m1) hash \<and> 1 \<le> length m1 \<and>
    length m1 \<le> 6 \<and> ws \<noteq> [] \<and> (\<forall>c\<in>set ws. is_space c) \<and> m2 \<noteq> [] \<and> (\<forall>c\<in>set m2. is_dot c)"
proof -
  have "rep is_hash 1 (Some 6) []
      (\<lambda>m1. rep is_space 1 None [] (\<lambda>_. rep is_dot 1 None [] (\<lambda>m2. eos (m1, m2)))) l
      = Some (m1, m2)"
    using assms by (simp add: heading_re_def)
  from rep_sound [OF this] obtain xs ys where 1: "l = xs @ ys" "\<forall>x\<in>set xs. is_hash x"
    "1 \<le> length xs" "length xs \<le> 6"
    "rep is_space 1 None [] (\<lambda>_. rep is_dot 1 None [] (\<lambda>m2. eos (xs, m2))) ys = Some (m1, m2)"
    by auto
  from rep_sound [OF 1(5)] obtain ws zs where 2: "ys = ws @ zs" "\<forall>x\<in>set ws. is_space x"
    "1 \<le> length ws" "rep is_dot 1 None [] (\<lambda>m2. eos (xs, m2)) zs = Some (m1, m2)"
    by auto
  from rep_sound [OF 2(4)] obtain ds r where 3: "zs = ds @ r" "\<forall>x\<in>set ds. is_dot x"
    "1 \<le> length ds" "eos (xs, ds) r = Some (m1, m2)"
    by auto
  have 4: "r = []" "m1 = xs" "m2 = ds"
    using 3(4) by (auto simp: eos_def split: if_splits)
  have "xs = replicate (length xs) hash"
    using 1(2) by (simp add: is_hash_def replicate_length_same)
  then show ?thesis
    using 1 2 3 4 by (intro exI [of _ ws]) auto
qed

lemma heading_re_max:
  assumes "1 \<le> n" "n \<le> 6" "ws \<noteq> []" "\<forall>c\<in>set ws. is_space c"
    "t \<noteq> []" "\<forall>c\<in>set t. is_dot c" "\<not> is_space (hd t)"
  shows "heading_re (replicate n hash @ ws @ t) = Some (replicate n hash, t)"
proof -
  have d: "rep is_dot 1 None [] (\<lambda>m2. eos (replicate n hash, m2)) (t @ []) = Some (replicate n hash, t)"
    using assms by (intro rep_max [where xs = t and ys = "[]"]) (auto simp: eos_def Suc_le_eq)
  have s: "rep is_space 1 None [] (\<lambda>_. rep is_dot 1 None [] (\<lambda>m2. eos (replicate n hash, m2))) (ws @ t)
      = Some (replicate n hash, t)"
    using assms d by (intro rep_max [where xs = ws and ys = t]) (auto simp: Suc_le_eq)
  have "is_space (hd ws)" using assms by simp
  then have "hd ws \<noteq> hash" using hash_not_space by auto
  then have "rep is_hash 1 (Some 6) []
      (\<lambda>m1. rep is_space 1 None [] (\<lambda>_. rep is_dot 1 None [] (\<lambda>m2. eos (m1, m2))))
      (replicate n hash @ (ws @ t)) = Some (replicate n hash, t)"
    using assms s
    by (intro rep_max [where xs = "replicate n hash" and ys = "ws @ t"])
       (auto simp: is_hash_def hd_append)
  then show ?thesis
    by (simp add: heading_re_def)
qed

lemma heading_re_hd:
  assumes "heading_re l = Some (m1, m2)" "\<exists>c\<in>set m2. \<not> is_space c"
  shows "\<not> is_space (hd m2)"
proof -
  obtain ws where w: "l = m1 @ ws @ m2" "m1 = replicate (length m1) hash" "1 \<le> length m1"
    "length m1 \<le> 6" "ws \<noteq> []" "\<forall>c\<in>set ws. is_space c" "m2 \<noteq> []" "\<forall>c\<in>set m2. is_dot c"
    using heading_re_sound [OF assms(1)] by blast
  let ?a = "takeWhile is_space m2" and ?b = "dropWhile is_space m2"
  have b: "?b \<noteq> []" "\<not> is_space (hd ?b)" "\<forall>c\<in>set ?b. is_dot c"
    using assms(2) w(8) hd_dropWhile [of is_space m2]
    by (auto simp: dropWhile_eq_Nil_conv dest: set_dropWhileD)
  have a: "ws @ ?a \<noteq> []" "\<forall>c\<in>set (ws @ ?a). is_space c"
    using w(5,6) by (auto dest: set_takeWhileD)
  have "heading_re (replicate (length m1) hash @ (ws @ ?a) @ ?b) = Some (replicate (length m1) hash, ?b)"
    by (rule heading_re_max [OF w(3,4) a b(1,3,2)])
  moreover have "replicate (length m1) hash @ (ws @ ?a) @ ?b = l"
    using w(1,2) by simp
  ultimately have "?b = m2"
    using assms(1) by simp
  then show ?thesis
    using b(2) by simp
qed

lemma parseLoop_Cons:
  "h \<in> set (parseLoop (l # ls) i c) \<Longrightarrow>
   (\<exists>m1 m2. heading_re l = Some (m1, m2) \<and>
      h = \<lparr>h_level = length m1, h_text = m2, h_line = i, h_originalLine = l,
           h_id = js ''H'' @ dec (Suc c)\<rparr>) \<or>
   (\<exists>c'. c \<le> c' \<and> h \<in> set (parseLoop ls (Suc i) c'))"
  by (cases "heading_re l") auto

lemma parseLoop_line: "h \<in> set (parseLoop ls i c) \<Longrightarrow> i \<le> h_line h \<and> h_line h < i + length ls"
proof (induction ls arbitrary: i c)
  case Nil
  then show ?case by simp
next
  case (Cons l ls)
  from parseLoop_Cons [OF Cons.prems] show ?case
  proof
    assume "\<exists>m1 m2. heading_re l = Some (m1, m2) \<and>
      h = \<lparr>h_level = length m1, h_text = m2, h_line = i, h_originalLine = l,
           h_id = js ''H'' @ dec (Suc c)\<rparr>"
    then show ?thesis by auto
  next
    assume "\<exists>c'. c \<le> c' \<and> h \<in> set (parseLoop ls (Suc i) c')"
    then obtain c' where "h \<in> set (parseLoop ls (Suc i) c')" by blast
    from Cons.IH [OF this] show ?thesis by simp
  qed
qed

lemma parseLoop_original: "h \<in> set (parseLoop ls i c) \<Longrightarrow> h_originalLine h = ls ! (h_line h - i)"
proof (induction ls arbitrary: i c)
  case Nil
  then show ?case by simp
next
  case (Cons l ls)
  from parseLoop_Cons [OF Cons.prems] show ?case
  proof
    assume "\<exists>m1 m2. heading_re l = Some (m1, m2) \<and>
      h = \<lparr>h_level = length m1, h_text = m2, h_line = i, h_originalLine = l,
           h_id = js ''H'' @ dec (Suc c)\<rparr>"
    then show ?thesis by auto
  next
    assume "\<exists>c'. c \<le> c' \<and> h \<in> set (parseLoop ls (Suc i) c')"
    then obtain c' where c': "h \<in> set (parseLoop ls (Suc i) c')" by blast
    have "Suc i \<le> h_line h" using parseLoop_line [OF c'] by simp
    then have "h_line h - i = Suc (h_line h - Suc i)" by simp
    then show ?thesis using Cons.IH [OF c'] by simp
  qed
qed

lemma parseLoop_match:
  "h \<in> set (parseLoop ls i c) \<Longrightarrow>
   \<exists>m1. heading_re (h_originalLine h) = Some (m1, h_text h) \<and> h_level h = length m1"
proof (induction ls arbitrary: i c)
  case Nil
  then show ?case by simp
next
  case (Cons l ls)
  from parseLoop_Cons [OF Cons.prems] show ?case
  proof
    assume "\<exists>m1 m2. heading_re l = Some (m1, m2) \<and>
      h = \<lparr>h_level = length m1, h_text = m2, h_line = i, h_originalLine = l,
           h_id = js ''H'' @ dec (Suc c)\<rparr>"
    then show ?thesis by auto
  next
    assume "\<exists>c'. c \<le> c' \<and> h \<in> set (parseLoop ls (Suc i) c')"
    then obtain c' where c': "h \<in> set (parseLoop ls (Suc i) c')" by blast
    from Cons.IH [OF this] show ?thesis .
  qed
qed

lemma parseLoop_id: "h \<in> set (parseLoop ls i c) \<Longrightarrow> \<exists>k>c. h_id h = js ''H'' @ dec k"
proof (induction ls arbitrary: i c)
  case Nil
  then show ?case by simp
next
  case (Cons l ls)
  from parseLoop_Cons [OF Cons.prems] show ?case
  proof
    assume "\<exists>m1 m2. heading_re l = Some (m1, m2) \<and>
      h = \<lparr>h_level = length m1, h_text = m2, h_line = i, h_originalLine = l,
           h_id = js ''H'' @ dec (Suc c)\<rparr>"
    then have "h_id h = js ''H'' @ dec (Suc c)" by auto
    then show ?thesis by (intro exI [of _ "Suc c"]) simp
  next
    assume "\<exists>c'. c \<le> c' \<and> h \<in> set (parseLoop ls (Suc i) c')"
    then obtain c' where c': "c \<le> c'" "h \<in> set (parseLoop ls (Suc i) c')" by blast
    from Cons.IH [OF c'(2)] obtain k where "c' < k" "h_id h = js ''H'' @ dec k" by blast
    then show ?thesis using c'(1) by (intro exI [of _ k]) simp
  qed
qed

lemma parseLoop_lines: "sorted_wrt (<) (map h_line (parseLoop ls i c))"
proof (induction ls arbitrary: i c)
  case Nil
  then show ?case by simp
next
  case (Cons l ls)
  have "i < h_line h" if "h \<in> set (parseLoop ls (Suc i) k)" for k h
    using parseLoop_line [OF that] by simp
  then show ?case
    using Cons.IH by (cases "heading_re l") auto
qed

lemma parseLoop_ids: "distinct (map h_id (parseLoop ls i c))"
proof (induction ls arbitrary: i c)
  case Nil
  then show ?case by simp
next
  case (Cons l ls)
  have "h_id h \<noteq> js ''H'' @ dec (Suc c)" if h: "h \<in> set (parseLoop ls (Suc i) (Suc c))" for h
  proof -
    obtain k where "Suc c < k" "h_id h = js ''H'' @ dec k"
      using parseLoop_id [OF h] by blast
    then show ?thesis
      using dec_inj [of k "Suc c"] by auto
  qed
  then show ?case
    using Cons.IH by (cases "heading_re l") force+
qed

section \<open>The map and the sets of the reconciler\<close>

lemma collect_fst:
  "fst (collect eds nh em) = nh @ map (\<lambda>e. (e_level e, e_text e)) (filter (\<lambda>e. e_id e = js ''NEW'') eds)"
  by (induction eds arbitrary: nh em) auto

lemma collect_same_id:
  "\<forall>e\<in>set xs. e_id e = i \<Longrightarrow> map_of em i = map_of em' i \<Longrightarrow>
   map_of (snd (collect xs nh em)) i = map_of (snd (collect xs nh' em')) i"
proof (induction xs arbitrary: nh nh' em em')
  case Nil
  then show ?case by simp
next
  case (Cons e xs)
  show ?case
  proof (cases "e_id e = js ''NEW''")
    case True
    then show ?thesis using Cons.IH [of em em'] Cons.prems by simp
  next
    case False
    have "map_of (AList.update (e_id e) (e_level e, e_text e) em) i
        = map_of (AList.update (e_id e) (e_level e, e_text e) em') i"
      using Cons.prems by (simp add: update_conv')
    then show ?thesis using False Cons.IH Cons.prems by simp
  qed
qed

lemma collect_filter_id:
  "map_of (snd (collect eds nh em)) i
   = map_of (snd (collect (filter (\<lambda>e. e_id e = i) eds) nh em)) i"
proof (induction eds arbitrary: nh em)
  case Nil
  then show ?case by simp
next
  case (Cons e eds)
  show ?case
  proof (cases "e_id e = i")
    case True
    show ?thesis
    proof (cases "e_id e = js ''NEW''")
      case n: True
      then show ?thesis
        using True Cons.IH [of "nh @ [(e_level e, e_text e)]" em] by simp
    next
      case n: False
      then show ?thesis
        using True Cons.IH [of nh "AList.update (e_id e) (e_level e, e_text e) em"] by simp
    qed
  next
    case False
    show ?thesis
    proof (cases "e_id e = js ''NEW''")
      case True
      then show ?thesis
        using False Cons.IH [of "nh @ [(e_level e, e_text e)]" em]
          collect_same_id [of "filter (\<lambda>e. e_id e = i) eds" i em em]
        by simp
    next
      case n: False
      have "map_of (AList.update (e_id e) (e_level e, e_text e) em) i = map_of em i"
        using False by (simp add: update_conv')
      then have "map_of (snd (collect (filter (\<lambda>e. e_id e = i) eds) nh
            (AList.update (e_id e) (e_level e, e_text e) em))) i
          = map_of (snd (collect (filter (\<lambda>e. e_id e = i) eds) nh em)) i"
        by (intro collect_same_id) auto
      then show ?thesis
        using False n Cons.IH [of nh "AList.update (e_id e) (e_level e, e_text e) em"] by simp
    qed
  qed
qed

lemma filter_distinct_key:
  "distinct (map f xs) \<Longrightarrow> x \<in> set xs \<Longrightarrow> filter (\<lambda>y. f y = f x) xs = [x]"
proof (induction xs)
  case Nil
  then show ?case by simp
next
  case (Cons a xs)
  show ?case
  proof (cases "a = x")
    case True
    have "f x \<notin> f ` set xs"
      using Cons.prems True by simp
    then have "\<forall>y\<in>set xs. f y \<noteq> f x"
      by (metis imageI)
    then have "filter (\<lambda>y. f y = f x) xs = []"
      by (simp add: filter_empty_conv)
    then show ?thesis using True by simp
  next
    case False
    then have "f a \<noteq> f x" using Cons.prems by auto
    then show ?thesis using Cons False by simp
  qed
qed

lemma collect_lookup:
  assumes "distinct (map e_id eds)" "e \<in> set eds" "e_id e \<noteq> js ''NEW''"
  shows "map_of (snd (collect eds nh em)) (e_id e) = Some (e_level e, e_text e)"
proof -
  have "filter (\<lambda>y. e_id y = e_id e) eds = [e]"
    using assms(1,2) by (rule filter_distinct_key)
  then show ?thesis
    using assms(3) collect_filter_id [of eds nh em "e_id e"] by (simp add: update_conv')
qed

lemma set_foldl_set_add: "set (foldl (\<lambda>s x. set_add x s) acc xs) = set acc \<union> set xs"
  by (induction xs arbitrary: acc) (auto simp: set_add_def)

lemma set_new_Set: "set (new_Set xs) = set xs"
  by (simp add: new_Set_def set_foldl_set_add)

lemma set_foldl_deleted:
  "set (foldl (\<lambda>s i. if i \<notin> set e then set_add i s else s) acc xs)
   = set acc \<union> {i \<in> set xs. i \<notin> set e}"
  by (induction xs arbitrary: acc) (auto simp: set_add_def)

lemma set_findDeleted: "set (findDeleted originalIds editedIds) = set originalIds - set editedIds"
  by (auto simp: findDeleted_def set_foldl_deleted)

lemma set_deletedIdsOf:
  "set (deletedIdsOf hs ta) = h_id ` set hs - e_id ` set (editedOf ta)"
  by (simp add: deletedIdsOf_def set_findDeleted set_new_Set)

section \<open>The update loop and the removals\<close>

lemma updateLoop_removed:
  "fst (snd (updateLoop hs del em (L, rm, ch)))
   = rm @ map h_line (filter (\<lambda>h. h_id h \<in> set del) hs)"
  by (induction hs arbitrary: L rm ch) (auto split: option.splits)

lemma length_js_set: "i < length xs \<Longrightarrow> length (js_set xs i v) = length xs"
  by (simp add: js_set_def)

lemma updateLoop_length:
  "\<forall>h\<in>set hs. h_line h < length L \<Longrightarrow> length (fst (updateLoop hs del em (L, rm, ch))) = length L"
  by (induction hs arbitrary: L rm ch) (auto split: option.splits simp: length_js_set)

lemma updateLoop_untouched:
  "\<forall>h\<in>set hs. h_line h < length L \<Longrightarrow> i \<notin> h_line ` {h \<in> set hs. h_id h \<notin> set del} \<Longrightarrow>
   fst (updateLoop hs del em (L, rm, ch)) ! i = L ! i"
proof (induction hs arbitrary: L rm ch)
  case Nil
  then show ?case by simp
next
  case (Cons h hs)
  have i: "i \<notin> h_line ` {h \<in> set hs. h_id h \<notin> set del}"
    using Cons.prems(2) by auto
  show ?case
  proof (cases "h_id h \<in> set del")
    case True
    then show ?thesis using Cons.IH [OF _ i] Cons.prems(1) by simp
  next
    case False
    then have ne: "i \<noteq> h_line h" using Cons.prems(2) by auto
    have len: "\<forall>h'\<in>set hs. h_line h' < length (js_set L (h_line h) v)" for v
      using Cons.prems(1) by (simp add: length_js_set)
    have "js_set L (h_line h) v ! i = L ! i" for v
      using ne Cons.prems(1) by (simp add: js_set_def)
    then show ?thesis
      using False Cons.IH [OF _ i] Cons.IH [OF len i] Cons.prems(1)
      by (auto split: option.splits)
  qed
qed

lemma updateLoop_cong:
  "\<forall>h\<in>set hs. map_of em1 (h_id h) = map_of em2 (h_id h) \<Longrightarrow> set del1 = set del2 \<Longrightarrow>
   updateLoop hs del1 em1 st = updateLoop hs del2 em2 st"
proof (induction hs arbitrary: st)
  case Nil
  then show ?case by simp
next
  case (Cons h hs)
  obtain L rm ch where st: "st = (L, rm, ch)" by (cases st)
  show ?case
    using Cons.IH Cons.prems unfolding st by (auto split: option.splits)
qed

lemma updateLoop_unchanged:
  "\<forall>h\<in>set hs. h_id h \<notin> set del \<and>
     (\<exists>lv tx. map_of em (h_id h) = Some (lv, tx) \<and> js_get L (h_line h) = Some (rebuild lv tx)) \<Longrightarrow>
   updateLoop hs del em (L, rm, ch) = (L, rm, ch)"
  by (induction hs) auto

lemma nths_cong: "(\<And>j. j < length xs \<Longrightarrow> j \<in> A \<longleftrightarrow> j \<in> B) \<Longrightarrow> nths xs A = nths xs B"
proof -
  assume a: "\<And>j. j < length xs \<Longrightarrow> j \<in> A \<longleftrightarrow> j \<in> B"
  have "filter (\<lambda>p. snd p \<in> A) (zip xs [0..<length xs]) = filter (\<lambda>p. snd p \<in> B) (zip xs [0..<length xs])"
    using a by (intro filter_cong) (auto dest: set_zip_rightD)
  then show ?thesis by (simp add: nths_def)
qed

lemma nths_remove_middle:
  assumes "\<forall>j\<in>S. j < length xs"
  shows "nths (xs @ ys) (- S) = nths (xs @ x # ys) (- insert (length xs) S)"
proof -
  have 1: "nths xs (- insert (length xs) S) = nths xs (- S)"
    by (intro nths_cong) auto
  have 2: "nths ys {j. j + length xs \<in> - S} = ys"
    using assms by (intro nths_all) fastforce
  have 3: "nths ys {j. Suc j \<in> {j. j + length xs \<in> - insert (length xs) S}} = ys"
    using assms by (intro nths_all) fastforce
  have "nths (xs @ x # ys) (- insert (length xs) S) = nths xs (- S) @ ys"
    using 1 3 by (simp add: nths_append nths_Cons)
  moreover have "nths (xs @ ys) (- S) = nths xs (- S) @ ys"
    using 2 by (simp add: nths_append)
  ultimately show ?thesis by simp
qed

lemma nths_remove_index:
  assumes "\<forall>j\<in>S. j < i"
  shows "nths (take i L @ drop (Suc i) L) (- S) = nths L (- insert i S)"
proof (cases "i < length L")
  case False
  then have "take i L @ drop (Suc i) L = L" by simp
  moreover have "nths L (- S) = nths L (- insert i S)"
    using False by (intro nths_cong) auto
  ultimately show ?thesis by simp
next
  case True
  have L: "take i L @ (L ! i) # drop (Suc i) L = L"
    using True by (simp add: id_take_nth_drop [symmetric])
  have len: "length (take i L) = i" using True by simp
  have "\<forall>j\<in>S. j < length (take i L)"
    using assms len by simp
  from nths_remove_middle [OF this, of "drop (Suc i) L" "L ! i"] show ?thesis
    unfolding L len .
qed

lemma spliceLoop_nths: "sorted_wrt (>) is \<Longrightarrow> spliceLoop L is = nths L (- set is)"
proof (induction "is" arbitrary: L)
  case Nil
  then show ?case by (simp add: nths_all)
next
  case (Cons i "is")
  have "spliceLoop (take i L @ drop (Suc i) L) is = nths (take i L @ drop (Suc i) L) (- set is)"
    using Cons by simp
  also have "\<dots> = nths L (- insert i (set is))"
    using Cons.prems by (intro nths_remove_index) auto
  finally show ?case by simp
qed

lemma sort_desc_strict: "distinct xs \<Longrightarrow> sorted_wrt (>) (sort_desc xs)"
proof -
  assume "distinct xs"
  then have "sorted_wrt (<) (sort xs)"
    by (simp add: strict_sorted_iff)
  then show ?thesis
    by (simp add: sort_desc_def sorted_wrt_rev)
qed

lemma set_sort_desc: "set (sort_desc xs) = set xs"
  by (simp add: sort_desc_def)

lemma map_filter_concat:
  "map f (filter P xs) = concat (map (\<lambda>i. if P i then [f i] else []) xs)"
  by (induction xs) auto

lemma nths_concat:
  "nths xs (- D) = concat (map (\<lambda>i. if i \<in> D then [] else [xs ! i]) [0..<length xs])"
proof -
  have "zip xs [0..<length xs] = map (\<lambda>i. (xs ! i, i)) [0..<length xs]"
    by (intro nth_equalityI) auto
  then have "nths xs (- D) = map ((!) xs) (filter (\<lambda>i. i \<notin> D) [0..<length xs])"
    by (simp add: nths_def filter_map comp_def)
  also have "\<dots> = concat (map (\<lambda>i. if i \<notin> D then [xs ! i] else []) [0..<length xs])"
    by (rule map_filter_concat)
  also have "\<dots> = concat (map (\<lambda>i. if i \<in> D then [] else [xs ! i]) [0..<length xs])"
    by (intro arg_cong [where f = concat] map_cong) auto
  finally show ?thesis .
qed

section \<open>Reconciling against the document the headings came from\<close>

lemma parseHeadings_line:
  "h \<in> set (parseHeadings content) \<Longrightarrow> h_line h < length (split_nl content)"
  using parseLoop_line [of h "split_nl content" 0 0] by (simp add: parseHeadings_def)

lemma parseHeadings_original:
  "h \<in> set (parseHeadings content) \<Longrightarrow> h_originalLine h = split_nl content ! h_line h"
  using parseLoop_original [of h "split_nl content" 0 0] by (simp add: parseHeadings_def)

lemma parseHeadings_match:
  "h \<in> set (parseHeadings content) \<Longrightarrow>
   \<exists>m1. heading_re (h_originalLine h) = Some (m1, h_text h) \<and> h_level h = length m1"
  unfolding parseHeadings_def by (rule parseLoop_match)

lemma parseHeadings_id:
  "h \<in> set (parseHeadings content) \<Longrightarrow> \<exists>k. h_id h = js ''H'' @ dec k"
  unfolding parseHeadings_def using parseLoop_id by blast

lemma parseHeadings_not_NEW:
  "h \<in> set (parseHeadings content) \<Longrightarrow> h_id h \<noteq> js ''NEW''"
  using parseHeadings_id [of h content] by (auto simp: js_def)

lemma parseHeadings_distinct_lines: "distinct (map h_line (parseHeadings content))"
  unfolding parseHeadings_def using parseLoop_lines [of "split_nl content" 0 0]
  by (simp add: strict_sorted_iff)

lemma parseHeadings_distinct_ids: "distinct (map h_id (parseHeadings content))"
  unfolding parseHeadings_def by (rule parseLoop_ids)

lemma heading_shape:
  assumes "h \<in> set (parseHeadings content)"
  shows "\<exists>ws. split_nl content ! h_line h = replicate (h_level h) hash @ ws @ h_text h \<and>
    1 \<le> h_level h \<and> h_level h \<le> 6 \<and> ws \<noteq> [] \<and> (\<forall>c\<in>set ws. is_space c) \<and>
    h_text h \<noteq> [] \<and> (\<forall>c\<in>set (h_text h). is_dot c) \<and>
    ((\<exists>c\<in>set (h_text h). \<not> is_space c) \<longrightarrow> \<not> is_space (hd (h_text h)))"
proof -
  obtain m1 where m: "heading_re (h_originalLine h) = Some (m1, h_text h)" "h_level h = length m1"
    using parseHeadings_match [OF assms] by blast
  obtain ws where w: "h_originalLine h = m1 @ ws @ h_text h" "m1 = replicate (length m1) hash"
    "1 \<le> length m1" "length m1 \<le> 6" "ws \<noteq> []" "\<forall>c\<in>set ws. is_space c" "h_text h \<noteq> []"
    "\<forall>c\<in>set (h_text h). is_dot c"
    using heading_re_sound [OF m(1)] by blast
  have "(\<exists>c\<in>set (h_text h). \<not> is_space c) \<longrightarrow> \<not> is_space (hd (h_text h))"
    using heading_re_hd [OF m(1)] by blast
  moreover have "split_nl content ! h_line h = replicate (h_level h) hash @ ws @ h_text h"
    using w(1,2) m(2) parseHeadings_original [OF assms] by simp
  ultimately show ?thesis
    using w m(2) by (intro exI [of _ ws]) simp
qed

lemma removed_lines:
  assumes "updated hs ta content = (upd, rm, ch)"
  shows "rm = map h_line (filter (\<lambda>h. h_id h \<notin> e_id ` set (editedOf ta)) hs)"
proof -
  have "rm = map h_line (filter (\<lambda>h. h_id h \<in> set (deletedIdsOf hs ta)) hs)"
    using updateLoop_removed [of hs "deletedIdsOf hs ta" "editMapOf ta" "split_nl content" "[]" False]
      assms by (simp add: updated_def)
  moreover have "filter (\<lambda>h. h_id h \<in> set (deletedIdsOf hs ta)) hs
      = filter (\<lambda>h. h_id h \<notin> e_id ` set (editedOf ta)) hs"
    by (intro filter_cong) (auto simp: set_deletedIdsOf)
  ultimately show ?thesis by simp
qed

lemma patched_nths:
  assumes "hs = parseHeadings content" "updated hs ta content = (upd, rm, ch)"
  shows "patchedLines hs ta content = (nths upd (- set rm), ch)"
    and "length upd = length (split_nl content)"
    and "sorted_wrt (>) (sort_desc rm)"
proof -
  have rm: "rm = map h_line (filter (\<lambda>h. h_id h \<notin> e_id ` set (editedOf ta)) hs)"
    using assms(2) by (rule removed_lines)
  have "distinct (map h_line hs)"
    unfolding assms(1) by (rule parseHeadings_distinct_lines)
  then have "distinct rm"
    unfolding rm by (rule distinct_map_filter)
  then show s: "sorted_wrt (>) (sort_desc rm)"
    by (rule sort_desc_strict)
  show "patchedLines hs ta content = (nths upd (- set rm), ch)"
    using assms(2) spliceLoop_nths [OF s, of upd] by (simp add: patchedLines_def set_sort_desc)
  have "\<forall>h\<in>set hs. h_line h < length (split_nl content)"
    unfolding assms(1) using parseHeadings_line by blast
  then show "length upd = length (split_nl content)"
    using updateLoop_length [of hs "split_nl content" "deletedIdsOf hs ta" "editMapOf ta" "[]" False]
      assms(2) by (simp add: updated_def)
qed

lemma newHeadingsOf_eq:
  "map (\<lambda>(lv, tx). rebuild lv tx) (newHeadingsOf ta)
   = map (\<lambda>e. rebuild (e_level e) (e_text e)) (filter (\<lambda>e. e_id e = js ''NEW'') (editedOf ta))"
  by (simp add: newHeadingsOf_def collect_fst comp_def)

lemma editedOf_join:
  assumes "\<forall>l\<in>set ls. nl \<notin> set l"
  shows "editedOf (join_nl ls) = List.map_filter parseEdited (filter (\<lambda>line. trim line \<noteq> []) ls)"
  using assms by (simp add: editedOf_def editedHeadings_def nonblank_lines_join)

lemma map_filter_append: "List.map_filter f (xs @ ys) = List.map_filter f xs @ List.map_filter f ys"
  by (simp add: List.map_filter_def)

lemma finalLines_cong:
  assumes "\<forall>h\<in>set hs. map_of (editMapOf ta1) (h_id h) = map_of (editMapOf ta2) (h_id h)"
    "set (deletedIdsOf hs ta1) = set (deletedIdsOf hs ta2)"
    "newHeadingsOf ta1 = newHeadingsOf ta2"
  shows "finalLines hs ta1 content = finalLines hs ta2 content"
proof -
  have "updated hs ta1 content = updated hs ta2 content"
    unfolding updated_def using assms(1,2) by (rule updateLoop_cong)
  then have p: "patchedLines hs ta1 content = patchedLines hs ta2 content"
    by (simp add: patchedLines_def)
  show ?thesis
    unfolding finalLines_def p assms(3) by (rule refl)
qed

lemma document_after_finalLines:
  "finalLines hs ta1 content = finalLines hs ta2 content \<Longrightarrow>
   document_after content (applyChanges hs ta1 content)
   = document_after content (applyChanges hs ta2 content)"
  by (cases "finalLines hs ta2 content") (simp add: applyChanges_def document_after_def)

lemma unknown_entry_ignored:
  assumes "e_id e \<noteq> js ''NEW''" "e_id e \<notin> h_id ` set hs"
    "editedOf ta1 = A @ e # B" "editedOf ta2 = A @ B"
  shows "finalLines hs ta1 content = finalLines hs ta2 content"
proof (rule finalLines_cong)
  show "\<forall>h\<in>set hs. map_of (editMapOf ta1) (h_id h) = map_of (editMapOf ta2) (h_id h)"
  proof
    fix h assume "h \<in> set hs"
    then have "e_id e \<noteq> h_id h" using assms(2) by auto
    then have "filter (\<lambda>x. e_id x = h_id h) (editedOf ta1) = filter (\<lambda>x. e_id x = h_id h) (editedOf ta2)"
      by (simp add: assms(3,4))
    then show "map_of (editMapOf ta1) (h_id h) = map_of (editMapOf ta2) (h_id h)"
      unfolding editMapOf_def
      using collect_filter_id [of "editedOf ta1" "[]" "[]" "h_id h"]
        collect_filter_id [of "editedOf ta2" "[]" "[]" "h_id h"] by simp
  qed
  show "set (deletedIdsOf hs ta1) = set (deletedIdsOf hs ta2)"
    using assms(2) by (auto simp: set_deletedIdsOf assms(3,4))
  show "newHeadingsOf ta1 = newHeadingsOf ta2"
    using assms(1) by (simp add: newHeadingsOf_def collect_fst assms(3,4))
qed

section \<open>The outline of an untouched document\<close>

lemma sp_space: "is_space sp"
  by (simp add: is_space_def sp_def)

lemma digit_not_nl: "is_digit c \<Longrightarrow> c \<noteq> nl"
  by (auto simp: is_digit_def nl_def)

lemma dot_not_nl: "is_dot c \<Longrightarrow> c \<noteq> nl"
  by (auto simp: is_dot_def nl_def)

lemma canonical_heading:
  assumes "h \<in> set (parseHeadings content)"
    "h_originalLine h = rebuild (h_level h) (h_text h)" "\<not> is_space (last (h_text h))"
  shows "parseEdited (outlineLine h) = Some \<lparr>e_id = h_id h, e_level = h_level h, e_text = h_text h\<rparr>"
    and "nl \<notin> set (outlineLine h)" and "trim (outlineLine h) \<noteq> []"
proof -
  obtain ws where s: "1 \<le> h_level h" "h_level h \<le> 6" "h_text h \<noteq> []"
    "\<forall>c\<in>set (h_text h). is_dot c"
    "(\<exists>c\<in>set (h_text h). \<not> is_space c) \<longrightarrow> \<not> is_space (hd (h_text h))"
    using heading_shape [OF assms(1)] by blast
  have "last (h_text h) \<in> set (h_text h)"
    using s(3) by simp
  then have hd: "\<not> is_space (hd (h_text h))"
    using s(5) assms(3) by blast
  have tr: "trim (h_text h) = h_text h"
    using s(3) hd assms(3) by (rule trim_id)
  obtain k where k: "h_id h = js ''H'' @ dec k"
    using parseHeadings_id [OF assms(1)] by blast
  have "edited_tail (js ''H'' @ dec k) (bar # [] @ replicate (h_level h) hash @ [sp] @ h_text h)
      = Some (js ''H'' @ dec k, replicate (h_level h) hash, h_text h)"
    using sp_space by (intro edited_tail_max [OF _ s(1,2) _ _ s(3,4) hd]) simp_all
  then have "edited_re (js ''H'' @ dec k @ bar # [] @ replicate (h_level h) hash @ [sp] @ h_text h)
      = Some (js ''H'' @ dec k, replicate (h_level h) hash, h_text h)"
    using dec_nonempty dec_digits by (intro edited_re_H) simp_all
  then have "parseEdited (h_id h @ bar # [] @ replicate (h_level h) hash @ [sp] @ h_text h)
      = Some \<lparr>e_id = h_id h, e_level = h_level h, e_text = trim (h_text h)\<rparr>"
    by (simp add: parseEdited_def k)
  then show "parseEdited (outlineLine h) = Some \<lparr>e_id = h_id h, e_level = h_level h, e_text = h_text h\<rparr>"
    by (simp add: outlineLine_def rebuild_def tr)
  have "nl \<notin> set (dec k)" "nl \<notin> set (h_text h)"
    using dec_digits [of k] digit_not_nl s(4) dot_not_nl by blast+
  then show "nl \<notin> set (outlineLine h)"
    by (simp add: outlineLine_def rebuild_def k js_def nl_def bar_def hash_def sp_def)
  have "hd (outlineLine h) = 0x48" "outlineLine h \<noteq> []"
    by (simp_all add: outlineLine_def k js_def)
  then show "trim (outlineLine h) \<noteq> []"
    by (intro trim_hd) (simp_all add: is_space_def)
qed

lemma editedOf_outline:
  assumes "\<forall>h\<in>set (parseHeadings content).
      h_originalLine h = rebuild (h_level h) (h_text h) \<and> \<not> is_space (last (h_text h))"
  shows "editedOf (outlineText (parseHeadings content)) = map asEdited (parseHeadings content)"
proof -
  let ?hs = "parseHeadings content"
  have a: "\<forall>l\<in>set (map outlineLine ?hs). nl \<notin> set l"
    using assms canonical_heading(2) by auto
  have b: "filter (\<lambda>line. trim line \<noteq> []) (map outlineLine ?hs) = map outlineLine ?hs"
    using assms canonical_heading(3) by (intro filter_True) auto
  have c: "List.map_filter parseEdited (map outlineLine xs) = map asEdited xs" if "set xs \<subseteq> set ?hs" for xs
    using that
  proof (induction xs)
    case Nil
    then show ?case by (simp add: List.map_filter_simps)
  next
    case (Cons x xs)
    then have "parseEdited (outlineLine x) = Some (asEdited x)"
      using assms canonical_heading(1) [of x content] by (simp add: asEdited_def)
    then show ?case
      using Cons by (simp add: List.map_filter_simps)
  qed
  show ?thesis
    unfolding outlineText_def editedOf_join [OF a] b by (rule c) simp
qed

section \<open>The adapter on well-formed outlines, and the count of removals\<close>

text \<open>
  Where every original line carries an identifier the alignment is positional: the
  \<open>j\<close>-th enhanced line gets the identifier of the \<open>j\<close>-th original line, and
  \<open>NEW\<close> past the last one.
\<close>

lemma matchLoop_prefixed:
  assumes "\<forall>l\<in>set originalLines. id_re l \<noteq> None"
  shows "matchLoop originalLines es i
    = map (\<lambda>(j, e). if j < length originalLines
                     then the (id_re (originalLines ! j)) @ bar # e
                     else js ''NEW|'' @ e)
        (zip [i..<i + length es] es)"
proof (induction es arbitrary: i)
  case Nil
  then show ?case by simp
next
  case (Cons e es)
  have z: "zip [i..<i + length (e # es)] (e # es) = (i, e) # zip [Suc i..<Suc i + length es] es"
    by (simp del: upt_Suc add: upt_conv_Cons)
  show ?case
  proof (cases "i < length originalLines")
    case True
    then obtain m where "id_re (originalLines ! i) = Some m"
      using assms by (metis nth_mem not_None_eq)
    then show ?thesis
      using True Cons.IH [of "Suc i"] unfolding z by simp
  next
    case False
    have "matchLoop originalLines es i = matchLoop originalLines es (Suc i)"
      using False
    proof (induction es)
      case Nil
      then show ?case by simp
    next
      case (Cons a es)
      then show ?case by simp
    qed
    then show ?thesis
      using False Cons.IH [of "Suc i"] unfolding z by simp
  qed
qed

text \<open>A line with an identifier \<open>H<digits>\<close> and a rest on one line loses its prefix.\<close>

lemma stripLine_H:
  assumes "ds \<noteq> []" "\<forall>d\<in>set ds. is_digit d" "rest \<noteq> []" "\<forall>c\<in>set rest. is_dot c"
  shows "stripLine (js ''H'' @ ds @ bar # rest) = rest"
proof -
  have "rep is_dot 1 None [] (\<lambda>m1. eos m1) (rest @ []) = Some rest"
    using assms by (intro rep_max [where xs = rest and ys = "[]"]) (auto simp: eos_def Suc_le_eq)
  then have "lit [bar] (rep is_dot 1 None [] (\<lambda>m1. eos m1)) (bar # rest) = Some rest"
    by simp
  then have "rep is_digit 1 None [] (\<lambda>_. lit [bar] (rep is_dot 1 None [] (\<lambda>m1. eos m1)))
      (ds @ (bar # rest)) = Some rest"
    using assms by (intro rep_max [where xs = ds and ys = "bar # rest"]) (auto simp: bar_not_digit Suc_le_eq)
  then show ?thesis
    by (simp add: stripLine_def strip_re_def lit_append)
qed

text \<open>
  With the headings extracted from the document itself, the number of deleted
  identifiers, which the notice prints as removed, is the number of lines removed.
\<close>

lemma new_Set_distinct: "distinct (acc @ xs) \<Longrightarrow> foldl (\<lambda>s x. set_add x s) acc xs = acc @ xs"
  by (induction xs arbitrary: acc) (auto simp: set_add_def)

lemma findDeleted_distinct:
  "distinct (acc @ xs) \<Longrightarrow>
   foldl (\<lambda>s i. if i \<notin> set e then set_add i s else s) acc xs = acc @ filter (\<lambda>i. i \<notin> set e) xs"
  by (induction xs arbitrary: acc) (auto simp: set_add_def)

lemma removed_count:
  assumes "hs = parseHeadings content" "updated hs ta content = (upd, rm, ch)"
  shows "length (deletedIdsOf hs ta) = length rm"
proof -
  have d: "distinct (map h_id hs)"
    unfolding assms(1) by (rule parseHeadings_distinct_ids)
  then have "new_Set (map h_id hs) = map h_id hs"
    using new_Set_distinct [of "[]" "map h_id hs"] by (simp add: new_Set_def)
  then have "deletedIdsOf hs ta
      = filter (\<lambda>i. i \<notin> set (new_Set (map e_id (editedOf ta)))) (map h_id hs)"
    using d findDeleted_distinct [of "[]" "map h_id hs"] by (simp add: deletedIdsOf_def findDeleted_def)
  then have "length (deletedIdsOf hs ta)
      = length (filter (\<lambda>h. h_id h \<notin> e_id ` set (editedOf ta)) hs)"
    by (simp add: filter_map comp_def set_new_Set)
  then show ?thesis
    by (simp add: removed_lines [OF assms(2)])
qed

section \<open>The claims\<close>

text \<open>
  C1 (round trip of an untouched outline), in the form the code satisfies. Let every
  heading line of the document be exactly its marker run, one space and its text, the
  text not ending in white space. Then reconciling the outline text made from the
  document's extraction against the same document reports no changes and leaves the
  document text as it is.
\<close>

theorem roundtrip_noop:
  assumes "\<forall>h\<in>set (parseHeadings content).
      h_originalLine h = rebuild (h_level h) (h_text h) \<and> \<not> is_space (last (h_text h))"
  shows "applyChanges (parseHeadings content) (outlineText (parseHeadings content)) content = NoChanges \<and>
    document_after content
      (applyChanges (parseHeadings content) (outlineText (parseHeadings content)) content) = content"
proof -
  let ?hs = "parseHeadings content" and ?ta = "outlineText (parseHeadings content)"
  have eds: "editedOf ?ta = map asEdited ?hs"
    using assms by (rule editedOf_outline)
  have ids: "map e_id (map asEdited ?hs) = map h_id ?hs"
    by (simp add: asEdited_def comp_def)
  have "filter (\<lambda>e. e_id e = js ''NEW'') (map asEdited ?hs) = []"
    using parseHeadings_not_NEW [of _ content] by (auto simp: filter_empty_conv asEdited_def)
  then have new: "newHeadingsOf ?ta = []"
    by (simp add: newHeadingsOf_def collect_fst eds)
  have "e_id ` set (map asEdited ?hs) = h_id ` set ?hs"
    by (simp add: asEdited_def image_image)
  then have "set (deletedIdsOf ?hs ?ta) = {}"
    by (simp add: set_deletedIdsOf eds)
  then have del: "deletedIdsOf ?hs ?ta = []"
    by simp
  have look: "map_of (editMapOf ?ta) (h_id h) = Some (h_level h, h_text h)" if h: "h \<in> set ?hs" for h
  proof -
    have "distinct (map e_id (map asEdited ?hs))"
      unfolding ids by (rule parseHeadings_distinct_ids)
    moreover have "asEdited h \<in> set (map asEdited ?hs)" using h by simp
    moreover have "e_id (asEdited h) \<noteq> js ''NEW''"
      using parseHeadings_not_NEW [OF h] by (simp add: asEdited_def)
    ultimately have "map_of (snd (collect (map asEdited ?hs) [] [])) (e_id (asEdited h))
        = Some (e_level (asEdited h), e_text (asEdited h))"
      by (rule collect_lookup)
    then show ?thesis
      by (simp add: editMapOf_def eds asEdited_def)
  qed
  have "updateLoop ?hs (deletedIdsOf ?hs ?ta) (editMapOf ?ta) (split_nl content, [], False)
      = (split_nl content, [], False)"
  proof (rule updateLoop_unchanged, rule ballI)
    fix h assume h: "h \<in> set ?hs"
    have "js_get (split_nl content) (h_line h) = Some (rebuild (h_level h) (h_text h))"
      using assms h parseHeadings_line [OF h] parseHeadings_original [OF h]
      by (simp add: js_get_def)
    then show "h_id h \<notin> set (deletedIdsOf ?hs ?ta) \<and>
        (\<exists>lv tx. map_of (editMapOf ?ta) (h_id h) = Some (lv, tx) \<and>
           js_get (split_nl content) (h_line h) = Some (rebuild lv tx))"
      using look [OF h] del by simp
  qed
  then show ?thesis
    by (simp add: applyChanges_def finalLines_def patchedLines_def updated_def new sort_desc_def
        document_after_def)
qed

text \<open>
  The round trip at the document \<open># A\<close>, \<open>body\<close>, \<open>## B\<close>, whose heading lines
  have that form.
\<close>

theorem roundtrip_noop_witness:
  "applyChanges (parseHeadings (js ''# A\<newline>body\<newline>## B''))
     (outlineText (parseHeadings (js ''# A\<newline>body\<newline>## B''))) (js ''# A\<newline>body\<newline>## B'') = NoChanges \<and>
   document_after (js ''# A\<newline>body\<newline>## B'')
     (applyChanges (parseHeadings (js ''# A\<newline>body\<newline>## B''))
        (outlineText (parseHeadings (js ''# A\<newline>body\<newline>## B''))) (js ''# A\<newline>body\<newline>## B''))
   = js ''# A\<newline>body\<newline>## B''"
proof -
  have "\<forall>h\<in>set (parseHeadings (js ''# A\<newline>body\<newline>## B'')).
      h_originalLine h = rebuild (h_level h) (h_text h) \<and> \<not> is_space (last (h_text h))"
    by code_simp
  then show ?thesis
    by (rule roundtrip_noop)
qed

text \<open>
  The round trip does not hold for every document: the heading \<open>#  A\<close>, with two spaces
  after its marker, comes back from the untouched outline as \<open># A\<close>, and the document
  is rewritten with one heading counted as modified.
\<close>

theorem roundtrip_rewrites_spacing:
  "applyChanges (parseHeadings (js ''#  A'')) (outlineText (parseHeadings (js ''#  A''))) (js ''#  A'')
     = Updated (js ''# A'') 1 0 0 \<and>
   document_after (js ''#  A'')
     (applyChanges (parseHeadings (js ''#  A'')) (outlineText (parseHeadings (js ''#  A''))) (js ''#  A''))
     \<noteq> js ''#  A''"
  by code_simp

text \<open>
  C2 (positional re-attachment of identifiers). At the original lines \<open>H1|# A\<close>,
  \<open>notes\<close>, \<open>H2|## B\<close> and three enhanced lines, \<open>matchHeadingsWithIds\<close> gives the
  first line the identifier \<open>H1\<close> and emits the second and the third bare:
  \<open>originalIndex\<close> stays on the line without an identifier, so the third enhanced line
  is never set against the third original line and does not receive \<open>H2\<close>.
\<close>

theorem matchHeadingsWithIds_stalls:
  "matchHeadingsWithIds [js ''H1|# A'', js ''notes'', js ''H2|## B'']
     [js ''# A2'', js ''## N'', js ''## B2'']
   = [js ''H1|# A2'', js ''## N'', js ''## B2'']"
  by code_simp

text \<open>
  C3 (reported counts). For the document \<open># A\<close>, \<open>## B\<close> and the outline that changes
  the level of \<open>H1\<close> and keeps the line of \<open>H2\<close>, \<open>applyChanges\<close> rewrites the first
  line only, and its notice counts 2 modified: the number it prints is the size of
  \<open>editMap\<close>, one for every identifier kept in the outline.
\<close>

theorem modified_count_is_map_size:
  "applyChanges (parseHeadings (js ''# A\<newline>## B'')) (js ''H1|## A\<newline>H2|## B'') (js ''# A\<newline>## B'')
     = Updated (js ''## A\<newline>## B'') 2 0 0 \<and>
   notice (applyChanges (parseHeadings (js ''# A\<newline>## B'')) (js ''H1|## A\<newline>H2|## B'') (js ''# A\<newline>## B''))
     = js ''Outline updated: 2 modified, 0 removed, 0 added''"
  by code_simp

text \<open>
  C4 (identifiers stripped before the external call). In the outline \<open>H1|# A\<close>,
  \<open>NEW|# C\<close> the line of \<open>H1\<close> loses its prefix and the line tagged \<open>NEW\<close> keeps it:
  the pattern of \<open>currentOutline\<close> knows the identifiers \<open>H<digits>\<close> only.
\<close>

theorem currentOutline_keeps_NEW:
  "currentOutline (js ''H1|# A\<newline>NEW|# C'') = js ''# A\<newline>NEW|# C''"
  by code_simp






text \<open>
  C7 (addition). The parsed entries tagged \<open>NEW\<close>, rebuilt as marker run, space and
  text and kept in the order of the edited text, are the last of the lines handed to
  \<open>join\<close>, after the patched lines of the document, wherever they stand in the outline;
  when there is at least one, the document is set to the join of these lines and the
  notice counts them as added.
\<close>

theorem additions_appended:
  assumes "news = map (\<lambda>e. rebuild (e_level e) (e_text e))
      (filter (\<lambda>e. e_id e = js ''NEW'') (editedOf ta))"
  shows "fst (finalLines hs ta content) = fst (patchedLines hs ta content) @ news \<and>
    (news \<noteq> [] \<longrightarrow>
       applyChanges hs ta content
       = Updated (join_nl (fst (patchedLines hs ta content) @ news))
           (length (editMapOf ta)) (length (deletedIdsOf hs ta)) (length news))"
proof -
  obtain P ch where p: "patchedLines hs ta content = (P, ch)" by (cases "patchedLines hs ta content")
  have n: "map (\<lambda>(lv, tx). rebuild lv tx) (newHeadingsOf ta) = news"
    unfolding assms by (rule newHeadingsOf_eq)
  then have l: "length (newHeadingsOf ta) = length news"
    by (metis length_map)
  have e: "newHeadingsOf ta = [] \<longleftrightarrow> news = []"
    using l by auto
  show ?thesis
    using p n l e by (auto simp: finalLines_def applyChanges_def)
qed

text \<open>
  Two new entries, one before and one after the entry of \<open>H1\<close>, are appended in
  their order.
\<close>

theorem additions_appended_witness:
  "fst (finalLines (parseHeadings (js ''# A\<newline>body'')) (js ''NEW|## C\<newline>H1|# A\<newline>NEW|# D'') (js ''# A\<newline>body''))
     = fst (patchedLines (parseHeadings (js ''# A\<newline>body'')) (js ''NEW|## C\<newline>H1|# A\<newline>NEW|# D'') (js ''# A\<newline>body''))
       @ [js ''## C'', js ''# D''] \<and>
   applyChanges (parseHeadings (js ''# A\<newline>body'')) (js ''NEW|## C\<newline>H1|# A\<newline>NEW|# D'') (js ''# A\<newline>body'')
     = Updated (js ''# A\<newline>body\<newline>## C\<newline># D'') 1 0 2"
proof -
  have n: "[js ''## C'', js ''# D''] = map (\<lambda>e. rebuild (e_level e) (e_text e))
      (filter (\<lambda>e. e_id e = js ''NEW'') (editedOf (js ''NEW|## C\<newline>H1|# A\<newline>NEW|# D'')))"
    by code_simp
  have e: "join_nl (fst (patchedLines (parseHeadings (js ''# A\<newline>body'')) (js ''NEW|## C\<newline>H1|# A\<newline>NEW|# D'') (js ''# A\<newline>body''))
       @ [js ''## C'', js ''# D'']) = js ''# A\<newline>body\<newline>## C\<newline># D''"
    "length (editMapOf (js ''NEW|## C\<newline>H1|# A\<newline>NEW|# D'')) = 1"
    "length (deletedIdsOf (parseHeadings (js ''# A\<newline>body'')) (js ''NEW|## C\<newline>H1|# A\<newline>NEW|# D'')) = 0"
    by code_simp+
  from additions_appended [OF n, of "parseHeadings (js ''# A\<newline>body'')" "js ''# A\<newline>body''"]
  show ?thesis
    using e by simp
qed

text \<open>
  C8 (unknown identifier). An edited line that parses to an entry whose identifier is
  neither \<open>NEW\<close> nor the identifier of a heading changes nothing: with that line or
  without it, the lines handed to \<open>join\<close>, the flag \<open>changesMade\<close> and the document
  after \<open>applyChanges\<close> are the same.
\<close>

theorem unknown_id_ignored:
  assumes "\<forall>l\<in>set (pre @ x # post). nl \<notin> set l" "parseEdited x = Some e"
    "e_id e \<noteq> js ''NEW''" "e_id e \<notin> h_id ` set hs"
  shows "finalLines hs (join_nl (pre @ x # post)) content = finalLines hs (join_nl (pre @ post)) content \<and>
    document_after content (applyChanges hs (join_nl (pre @ x # post)) content)
    = document_after content (applyChanges hs (join_nl (pre @ post)) content)"
proof -
  let ?A = "List.map_filter parseEdited (filter (\<lambda>line. trim line \<noteq> []) pre)"
  let ?B = "List.map_filter parseEdited (filter (\<lambda>line. trim line \<noteq> []) post)"
  have 2: "editedOf (join_nl (pre @ post)) = ?A @ ?B"
    using assms(1) by (simp add: editedOf_join map_filter_append)
  have f: "finalLines hs (join_nl (pre @ x # post)) content = finalLines hs (join_nl (pre @ post)) content"
  proof (cases "trim x = []")
    case True
    then have "editedOf (join_nl (pre @ x # post)) = editedOf (join_nl (pre @ post))"
      using assms(1) by (simp add: editedOf_join map_filter_append)
    then show ?thesis
      by (intro finalLines_cong) (simp_all add: editMapOf_def deletedIdsOf_def newHeadingsOf_def)
  next
    case False
    then have "editedOf (join_nl (pre @ x # post)) = ?A @ e # ?B"
      using assms(1,2) by (simp add: editedOf_join map_filter_append List.map_filter_simps)
    then show ?thesis
      using 2 by (rule unknown_entry_ignored [OF assms(3,4)])
  qed
  then show ?thesis
    using document_after_finalLines by blast
qed

text \<open>
  The line \<open>H99|# Z\<close> between the lines of \<open>H1\<close> and \<open>H2\<close>.
\<close>

theorem unknown_id_ignored_witness:
  "finalLines (parseHeadings (js ''# A\<newline>body\<newline>## B''))
     (join_nl ([js ''H1|# A''] @ js ''H99|# Z'' # [js ''H2|## B''])) (js ''# A\<newline>body\<newline>## B'')
   = finalLines (parseHeadings (js ''# A\<newline>body\<newline>## B''))
     (join_nl ([js ''H1|# A''] @ [js ''H2|## B''])) (js ''# A\<newline>body\<newline>## B'') \<and>
   document_after (js ''# A\<newline>body\<newline>## B'')
     (applyChanges (parseHeadings (js ''# A\<newline>body\<newline>## B''))
        (join_nl ([js ''H1|# A''] @ js ''H99|# Z'' # [js ''H2|## B''])) (js ''# A\<newline>body\<newline>## B''))
   = document_after (js ''# A\<newline>body\<newline>## B'')
     (applyChanges (parseHeadings (js ''# A\<newline>body\<newline>## B''))
        (join_nl ([js ''H1|# A''] @ [js ''H2|## B''])) (js ''# A\<newline>body\<newline>## B''))"
proof -
  have 1: "\<forall>l\<in>set ([js ''H1|# A''] @ js ''H99|# Z'' # [js ''H2|## B'']). nl \<notin> set l"
    by code_simp
  have 2: "parseEdited (js ''H99|# Z'') = Some \<lparr>e_id = js ''H99'', e_level = 1, e_text = js ''Z''\<rparr>"
    by code_simp
  have 3: "e_id \<lparr>e_id = js ''H99'', e_level = 1, e_text = js ''Z''\<rparr> \<noteq> js ''NEW''"
    by code_simp
  have 4: "e_id \<lparr>e_id = js ''H99'', e_level = 1, e_text = js ''Z''\<rparr>
      \<notin> h_id ` set (parseHeadings (js ''# A\<newline>body\<newline>## B''))"
    by code_simp
  show ?thesis
    by (rule unknown_id_ignored [OF 1 2 3 4])
qed

text \<open>
  C9 (frame). With the headings extracted from the document itself, the document after
  \<open>applyChanges\<close> is the join of what each original line contributes, in the order of
  the lines, followed by the rebuilt entries tagged \<open>NEW\<close>: every line contributes at
  most one line, and a line that is not the line of a heading contributes itself.
\<close>

theorem non_heading_lines_kept:
  assumes "hs = parseHeadings content" "lines = split_nl content"
  shows "\<exists>f. document_after content (applyChanges hs ta content)
      = join_nl (concat (map f [0..<length lines])
          @ map (\<lambda>e. rebuild (e_level e) (e_text e))
              (filter (\<lambda>e. e_id e = js ''NEW'') (editedOf ta))) \<and>
    (\<forall>i<length lines. i \<notin> h_line ` set hs \<longrightarrow> f i = [lines ! i]) \<and>
    (\<forall>i. length (f i) \<le> 1)"
proof -
  let ?news = "map (\<lambda>e. rebuild (e_level e) (e_text e)) (filter (\<lambda>e. e_id e = js ''NEW'') (editedOf ta))"
  obtain upd rm ch where u: "updated hs ta content = (upd, rm, ch)"
    by (cases "updated hs ta content") auto
  have p: "patchedLines hs ta content = (nths upd (- set rm), ch)"
    and len: "length upd = length lines"
    using patched_nths [OF assms(1) u] assms(2) by simp_all
  have n: "map (\<lambda>(lv, tx). rebuild lv tx) (newHeadingsOf ta) = ?news"
    by (rule newHeadingsOf_eq)
  then have e: "newHeadingsOf ta = [] \<longleftrightarrow> ?news = []"
    by (metis map_is_Nil_conv)
  obtain F c where fl: "finalLines hs ta content = (F, c)" by (cases "finalLines hs ta content")
  show ?thesis
  proof (cases c)
    case True
    let ?f = "\<lambda>i. if i \<in> set rm then [] else [upd ! i]"
    have F: "F = nths upd (- set rm) @ ?news"
      using fl p n e by (auto simp: finalLines_def split: if_splits)
    have "document_after content (applyChanges hs ta content) = join_nl F"
      using fl True by (simp add: applyChanges_def document_after_def)
    then have 1: "document_after content (applyChanges hs ta content)
        = join_nl (concat (map ?f [0..<length lines]) @ ?news)"
      using F len nths_concat [of upd "set rm"] by simp
    have 2: "?f i = [lines ! i]" if i: "i < length lines" "i \<notin> h_line ` set hs" for i
    proof -
      have "i \<notin> set rm"
        using i(2) removed_lines [OF u] by auto
      moreover have "upd ! i = lines ! i"
        using updateLoop_untouched [of hs "split_nl content" i "deletedIdsOf hs ta" "editMapOf ta" "[]" False]
          parseHeadings_line [of _ content] i(2) u assms
        by (auto simp: updated_def)
      ultimately show ?thesis by simp
    qed
    show ?thesis
      using 1 2 by (intro exI [of _ ?f]) simp
  next
    case False
    let ?f = "\<lambda>i. [lines ! i]"
    have "?news = []"
      using fl False e by (cases "patchedLines hs ta content") (auto simp: finalLines_def split: if_splits)
    moreover have "concat (map ?f [0..<length lines]) = lines"
      by (simp add: map_nth)
    moreover have "document_after content (applyChanges hs ta content) = content"
      using fl False by (simp add: applyChanges_def document_after_def)
    ultimately have "document_after content (applyChanges hs ta content)
        = join_nl (concat (map ?f [0..<length lines]) @ ?news)"
      using assms(2) join_split [of content] by simp
    then show ?thesis
      by (intro exI [of _ ?f]) simp
  qed
qed

text \<open>
  The document \<open># A\<close>, \<open>body\<close>, \<open>## B\<close> with \<open>H1\<close> edited and \<open>H2\<close> deleted.
\<close>

theorem non_heading_lines_kept_witness:
  "\<exists>f. document_after (js ''# A\<newline>body\<newline>## B'')
        (applyChanges (parseHeadings (js ''# A\<newline>body\<newline>## B'')) (js ''H1|## A2'') (js ''# A\<newline>body\<newline>## B''))
      = join_nl (concat (map f [0..<length (split_nl (js ''# A\<newline>body\<newline>## B''))])
          @ map (\<lambda>e. rebuild (e_level e) (e_text e))
              (filter (\<lambda>e. e_id e = js ''NEW'') (editedOf (js ''H1|## A2'')))) \<and>
    (\<forall>i<length (split_nl (js ''# A\<newline>body\<newline>## B'')).
        i \<notin> h_line ` set (parseHeadings (js ''# A\<newline>body\<newline>## B'')) \<longrightarrow>
        f i = [split_nl (js ''# A\<newline>body\<newline>## B'') ! i]) \<and>
    (\<forall>i. length (f i) \<le> 1)"
  by (rule non_heading_lines_kept [OF refl refl])

text \<open>
  C10 (lenient parsing of an edited line): for the identifier \<open>NEW\<close> or any
  \<open>H<digits>\<close>, a line made of the identifier, \<open>|\<close>, any run of white space (also
  none), one to six markers, a non-empty run of white space and a text on one line that
  starts with a non-blank character parses as an entry with that identifier, the number
  of markers as its level, and the text with the white space at its ends removed.
\<close>

theorem parseEdited_lenient:
  assumes "ident = js ''NEW'' \<or> (\<exists>ds. ds \<noteq> [] \<and> (\<forall>d\<in>set ds. is_digit d) \<and> ident = js ''H'' @ ds)"
    "\<forall>c\<in>set ws1. is_space c" "1 \<le> n" "n \<le> 6" "ws2 \<noteq> []" "\<forall>c\<in>set ws2. is_space c"
    "t \<noteq> []" "\<forall>c\<in>set t. is_dot c" "\<not> is_space (hd t)"
  shows "parseEdited (ident @ bar # ws1 @ replicate n hash @ ws2 @ t)
    = Some \<lparr>e_id = ident, e_level = n, e_text = trim t\<rparr>"
proof -
  have "edited_re (ident @ bar # ws1 @ replicate n hash @ ws2 @ t) = Some (ident, replicate n hash, t)"
  proof (cases "ident = js ''NEW''")
    case True
    then show ?thesis
      using edited_tail_max [OF assms(2-9)] by (simp add: edited_re_NEW)
  next
    case False
    then obtain ds where ds: "ds \<noteq> []" "\<forall>d\<in>set ds. is_digit d" "ident = js ''H'' @ ds"
      using assms(1) by blast
    show ?thesis
      using edited_re_H [OF ds(1,2) edited_tail_max [OF assms(2-9)]] ds(3) by simp
  qed
  then show ?thesis
    by (simp add: parseEdited_def)
qed

text \<open>
  The line \<open>H1|  ## T\<close> followed by two spaces.
\<close>

theorem parseEdited_lenient_witness:
  "parseEdited (js ''H1|  ## T  '') = Some \<lparr>e_id = js ''H1'', e_level = 2, e_text = js ''T''\<rparr>"
proof -
  have i: "js ''H1'' = js ''NEW'' \<or>
      (\<exists>ds. ds \<noteq> [] \<and> (\<forall>d\<in>set ds. is_digit d) \<and> js ''H1'' = js ''H'' @ ds)"
    by (rule disjI2, rule exI [of _ "js ''1''"]) (simp add: js_def is_digit_def)
  have w1: "\<forall>c\<in>set (js ''  ''). is_space c" by code_simp
  have w2: "js '' '' \<noteq> []" "\<forall>c\<in>set (js '' ''). is_space c" by code_simp+
  have t: "js ''T  '' \<noteq> []" "\<forall>c\<in>set (js ''T  ''). is_dot c" "\<not> is_space (hd (js ''T  ''))"
    by code_simp+
  have e: "js ''H1'' @ bar # js ''  '' @ replicate 2 hash @ js '' '' @ js ''T  '' = js ''H1|  ## T  ''"
    "trim (js ''T  '') = js ''T''"
    by code_simp+
  show ?thesis
    using parseEdited_lenient [OF i w1 _ _ w2 t, of 2] e by simp
qed

end
